theory Spec2Isabelle
  imports Main
begin

section \<open>The tokenizer as the extractors see it\<close>

text \<open>
  The functions of \<^verbatim>\<open>_archive.go\<close> read an \<^verbatim>\<open>*html.Tokenizer\<close> of
  \<^verbatim>\<open>golang.org/x/net/html\<close>. That package is not part of the repository, so only
  what the loops observe of it is modelled: the type, data and attributes of a token,
  and the error the tokenizer reports with an \<^verbatim>\<open>ErrorToken\<close>.
\<close>

datatype TokenType =
  ErrorToken | TextToken | StartTagToken | EndTagToken | SelfClosingTagToken
  | CommentToken | DoctypeToken

record Attribute =
  Namespace :: string
  Key :: string
  Val :: string

record Token =
  Type :: TokenType
  Data :: string
  Attr :: "Attribute list"

text \<open>
  \<^verbatim>\<open>tokenizer.Err()\<close> is compared with \<^verbatim>\<open>io.EOF\<close> only, so an error is either
  \<^verbatim>\<open>io.EOF\<close> or something else.
\<close>

datatype tokenizer_error = EOF | ErrOther

text \<open>
  A tokenizer holds the tokens it will still deliver and the error its reader ends
  with. Once the tokens are used up, every further \<^verbatim>\<open>Next()\<close> reports
  \<^verbatim>\<open>ErrorToken\<close> with that same error and leaves the tokenizer as it is: the error of
  an \<^verbatim>\<open>html.Tokenizer\<close> is sticky. A token of type \<^verbatim>\<open>ErrorToken\<close> among the pending
  ones stands for an error that is not \<^verbatim>\<open>io.EOF\<close> and after which the tokenizer goes on
  (\<open>Err\<close>); the package's own tokenizer never does that, the model is only wider.
\<close>

record Tokenizer =
  pending :: "Token list"
  ending :: tokenizer_error

definition NewTokenizer :: "Token list \<Rightarrow> tokenizer_error \<Rightarrow> Tokenizer" where
  "NewTokenizer ts e = \<lparr>pending = ts, ending = e\<rparr>"

text \<open>
  One iteration of either loop calls \<^verbatim>\<open>tokenizer.Next()\<close>, \<^verbatim>\<open>tokenizer.Token()\<close> and, for
  an \<^verbatim>\<open>ErrorToken\<close>, \<^verbatim>\<open>tokenizer.Err()\<close>. \<open>Next\<close> returns the advanced tokenizer with the
  token and the error of that iteration (\<open>None\<close> is Go's \<^verbatim>\<open>nil\<close>). With an
  \<^verbatim>\<open>ErrorToken\<close> the package's \<^verbatim>\<open>Token()\<close> returns \<^verbatim>\<open>Token{Type: ErrorToken}\<close>, here
  \<open>ErrorTok\<close>.
\<close>

definition Err :: "Token \<Rightarrow> tokenizer_error option" where
  "Err t = (if Type t = ErrorToken then Some ErrOther else None)"

definition ErrorTok :: Token where
  "ErrorTok = \<lparr>Type = ErrorToken, Data = [], Attr = []\<rparr>"

definition Next :: "Tokenizer \<Rightarrow> Tokenizer \<times> Token \<times> tokenizer_error option" where
  "Next z =
     (case pending z of
        [] \<Rightarrow> (z, ErrorTok, Some (ending z))
      | t # ts \<Rightarrow> (z\<lparr>pending := ts\<rparr>, t, Err t))"

section \<open>Attribute predicates\<close>

text \<open>
  \<^verbatim>\<open>strings.Split(v, " ")\<close>: cut at the first space, keep what is before it, go on with
  what is after it; a string without a space is its own single piece.
\<close>

function Split :: "string \<Rightarrow> string list" where
  "Split v =
     (if CHR '' '' \<in> set v
      then takeWhile (\<lambda>c. c \<noteq> CHR '' '') v # Split (tl (dropWhile (\<lambda>c. c \<noteq> CHR '' '') v))
      else [v])"
  by pat_completeness auto
termination
proof (relation "measure length")
  show "wf (measure length)" by simp
next
  fix v :: string
  assume sp: "CHR '' '' \<in> set v"
  let ?d = "dropWhile (\<lambda>c. c \<noteq> CHR '' '') v"
  have "?d \<noteq> []" using sp by auto
  then have "length (tl ?d) < length ?d" by (cases ?d) auto
  moreover have "length ?d \<le> length v" by (rule length_dropWhile_le)
  ultimately show "(tl ?d, v) \<in> measure length" by simp
qed

declare Split.simps [simp del]

text \<open>
  \<^verbatim>\<open>HtmlKeyInAttr(key, value)\<close> returns a closure over \<open>key\<close> and \<open>value\<close>; the closure
  applied to \<open>k\<close> and \<open>v\<close> is \<open>HtmlKeyInAttr key value k v\<close>. The \<^verbatim>\<open>for\<close> loop over the
  pieces returns true at the first piece equal to \<open>value\<close> and otherwise falls through
  to the final \<^verbatim>\<open>return false\<close>.
\<close>

definition HtmlKeyInAttr :: "string \<Rightarrow> string \<Rightarrow> string \<Rightarrow> string \<Rightarrow> bool" where
  "HtmlKeyInAttr key value k v =
     (if k = key then
        (if CHR '' '' \<in> set v
         then (if list_ex (\<lambda>i. i = value) (Split v) then True else False)
         else v = value)
      else False)"

text \<open>
  \<^verbatim>\<open>HtmlCheckAttrs(f, attr)\<close>; a \<^verbatim>\<open>nil\<close> function is \<open>None\<close>.
\<close>

type_synonym attrCond = "(string \<Rightarrow> string \<Rightarrow> bool) option"

fun HtmlCheckAttrs :: "attrCond \<Rightarrow> Attribute list \<Rightarrow> bool" where
  "HtmlCheckAttrs None attr = True"
| "HtmlCheckAttrs (Some f) [] = False"
| "HtmlCheckAttrs (Some f) (i # attr) =
     (if f (Key i) (Val i) then True else HtmlCheckAttrs (Some f) attr)"

section \<open>HtmlFind\<close>

text \<open>
  \<^verbatim>\<open>token.String()\<close> belongs to the tokenizer's package; the extractors only
  concatenate what it returns. It is the parameter \<open>str\<close> of every function below.

  The loop labelled \<^verbatim>\<open>AttrLoop\<close>: the first attribute that satisfies \<open>attrCond\<close> sets
  \<open>tagDepth\<close> to \<open>depth\<close> and leaves the loop.
\<close>

fun AttrLoop :: "(string \<Rightarrow> string \<Rightarrow> bool) \<Rightarrow> Attribute list \<Rightarrow> int \<Rightarrow> int \<Rightarrow> int" where
  "AttrLoop attrCond [] depth tagDepth = tagDepth"
| "AttrLoop attrCond (i # attr) depth tagDepth =
     (if attrCond (Key i) (Val i) then depth else AttrLoop attrCond attr depth tagDepth)"

text \<open>
  The statement after the \<^verbatim>\<open>switch\<close>:
  \<^verbatim>\<open>if tagDepth != -1 { ret.WriteString(token.String()) }\<close>.
\<close>

definition WriteString :: "(Token \<Rightarrow> string) \<Rightarrow> Token \<Rightarrow> int \<Rightarrow> string \<Rightarrow> string" where
  "WriteString str token tagDepth ret = (if tagDepth \<noteq> - 1 then ret @ str token else ret)"

text \<open>
  One run of the loop body on the variables \<open>(depth, tagDepth, ret, loop)\<close>. A
  \<^verbatim>\<open>continue\<close> returns the variables without the write after the \<^verbatim>\<open>switch\<close>. In the
  \<^verbatim>\<open>SelfClosingTagToken\<close> case the \<^verbatim>\<open>continue\<close> is the first statement under
  \<^verbatim>\<open>token.Data == tag\<close>, so the statements after it never run and have no
  counterpart here. Go's \<^verbatim>\<open>int\<close> is 64 bits wide and \<open>depth\<close> moves by one per token, so it
  cannot wrap around on a stream that fits in memory; it is an \<open>int\<close>.
\<close>

fun HtmlFind_body ::
  "(Token \<Rightarrow> string) \<Rightarrow> string \<Rightarrow> attrCond \<Rightarrow> Token \<times> tokenizer_error option \<Rightarrow>
   int \<times> int \<times> string \<times> bool \<Rightarrow> int \<times> int \<times> string \<times> bool" where
  "HtmlFind_body str tag attrCond (token, err) (depth, tagDepth, ret, loop) =
     (case Type token of
        ErrorToken \<Rightarrow>
          (let loop = (if err = Some EOF then False else loop)
           in (depth, tagDepth, WriteString str token tagDepth ret, loop))
      | StartTagToken \<Rightarrow>
          (let depth = depth + 1 in
           if Data token = tag then
             (case attrCond of
                None \<Rightarrow> (depth, depth, ret, loop)
              | Some f \<Rightarrow>
                  (let tagDepth = AttrLoop f (Attr token) depth tagDepth
                   in (depth, tagDepth, WriteString str token tagDepth ret, loop)))
           else (depth, tagDepth, WriteString str token tagDepth ret, loop))
      | SelfClosingTagToken \<Rightarrow>
          (if Data token = tag then (depth, tagDepth, ret, loop)
           else (depth, tagDepth, WriteString str token tagDepth ret, loop))
      | EndTagToken \<Rightarrow>
          (let loop = (if Data token = tag \<and> depth = tagDepth then False else loop);
               depth = depth - 1
           in (depth, tagDepth, WriteString str token tagDepth ret, loop))
      | _ \<Rightarrow> (depth, tagDepth, WriteString str token tagDepth ret, loop))"

text \<open>
  \<^verbatim>\<open>for loop { ... }; return ret.String()\<close>. The tokenizer is passed by pointer, so
  the caller sees how far it was read: the result is the string with the tokenizer
  as the loop left it. A loop that runs forever has the value \<open>None\<close>.
\<close>

partial_function (option) HtmlFind_loop ::
  "(Token \<Rightarrow> string) \<Rightarrow> string \<Rightarrow> attrCond \<Rightarrow> Tokenizer \<Rightarrow>
   int \<times> int \<times> string \<times> bool \<Rightarrow> (string \<times> Tokenizer) option" where
  "HtmlFind_loop str tag attrCond tokenizer vars =
     (case vars of (depth, tagDepth, ret, loop) \<Rightarrow>
        if loop then
          (case Next tokenizer of (tokenizer', pulled) \<Rightarrow>
             HtmlFind_loop str tag attrCond tokenizer'
               (HtmlFind_body str tag attrCond pulled vars))
        else Some (ret, tokenizer))"

definition HtmlFind ::
  "(Token \<Rightarrow> string) \<Rightarrow> Tokenizer \<Rightarrow> string \<Rightarrow> attrCond \<Rightarrow> (string \<times> Tokenizer) option" where
  "HtmlFind str tokenizer tag attrCond = HtmlFind_loop str tag attrCond tokenizer (0, - 1, [], True)"

definition HtmlFindByAttr ::
  "(Token \<Rightarrow> string) \<Rightarrow> Tokenizer \<Rightarrow> string \<Rightarrow> string \<Rightarrow> string \<Rightarrow> (string \<times> Tokenizer) option" where
  "HtmlFindByAttr str tokenizer tag key value =
     HtmlFind str tokenizer tag (Some (HtmlKeyInAttr key value))"

section \<open>HtmlFindAll\<close>

text \<open>
  Indexing and slicing panic in Go when the index is out of range. \<open>xs[n]\<close> needs
  \<open>0 \<le> n < len(xs)\<close>. \<open>xs[:n]\<close> needs \<open>0 \<le> n \<le> cap(xs)\<close>; the loop only ever slices with
  \<open>n = len(xs) - 1\<close> (lemma \<open>HtmlFindAll_body_inv\<close>), so the capacity beyond the length
  plays no part and the model refuses \<open>n > len(xs)\<close>.
\<close>

datatype panic = IndexOutOfRange | SliceBoundsOutOfRange

definition index :: "'a list \<Rightarrow> int \<Rightarrow> panic + 'a" where
  "index xs n = (if 0 \<le> n \<and> n < int (length xs) then Inr (xs ! nat n) else Inl IndexOutOfRange)"

definition slice_to :: "'a list \<Rightarrow> int \<Rightarrow> panic + 'a list" where
  "slice_to xs n =
     (if 0 \<le> n \<and> n \<le> int (length xs) then Inr (take (nat n) xs) else Inl SliceBoundsOutOfRange)"

type_synonym all_vars = "int \<times> int list \<times> string list \<times> string list \<times> bool \<times> bool \<times> int"

text \<open>
  The statements after the \<^verbatim>\<open>switch\<close>: the token's string goes to every open builder of
  \<open>h\<close>, and when \<open>push\<close> is set the newest builder moves to \<open>ret\<close>.
\<close>

definition HtmlFindAll_push :: "(Token \<Rightarrow> string) \<Rightarrow> Token \<Rightarrow> all_vars \<Rightarrow> panic + all_vars" where
  "HtmlFindAll_push str token vars =
     (case vars of (depth, tagDepth, h, ret, push, loop, n) \<Rightarrow>
        (let h = map (\<lambda>i. i @ str token) h in
         if push then
           (case index h n of
              Inl p \<Rightarrow> Inl p
            | Inr b \<Rightarrow>
                (case slice_to tagDepth n of
                   Inl p \<Rightarrow> Inl p
                 | Inr tagDepth' \<Rightarrow>
                     (case slice_to h n of
                        Inl p \<Rightarrow> Inl p
                      | Inr h' \<Rightarrow> Inr (depth, tagDepth', h', ret @ [b], False, loop, n - 1))))
         else Inr (depth, tagDepth, h, ret, push, loop, n)))"

text \<open>
  One run of the loop body on \<open>(depth, tagDepth, h, ret, push, loop, n)\<close>: the
  \<^verbatim>\<open>switch\<close> takes the first case whose condition holds. In the \<^verbatim>\<open>EndTagToken\<close> case
  \<^verbatim>\<open>token.Data == tag && depth == tagDepth[n]\<close> reads \<open>tagDepth[n]\<close> only when the names are
  equal.
\<close>

fun HtmlFindAll_body ::
  "(Token \<Rightarrow> string) \<Rightarrow> string \<Rightarrow> attrCond \<Rightarrow> Token \<times> tokenizer_error option \<Rightarrow>
   all_vars \<Rightarrow> panic + all_vars" where
  "HtmlFindAll_body str tag attrCond (token, err) (depth, tagDepth, h, ret, push, loop, n) =
     (if Type token = ErrorToken \<and> err = Some EOF then
        HtmlFindAll_push str token (depth, tagDepth, h, ret, push, False, n)
      else if Type token = SelfClosingTagToken \<and> Data token = tag
              \<and> HtmlCheckAttrs attrCond (Attr token) then
        HtmlFindAll_push str token (depth, tagDepth @ [1], h @ [[]], ret, True, loop, n + 1)
      else if Type token = StartTagToken then
        (let depth = depth + 1 in
         if Data token = tag \<and> HtmlCheckAttrs attrCond (Attr token) then
           HtmlFindAll_push str token (depth, tagDepth @ [depth], h @ [[]], ret, push, loop, n + 1)
         else HtmlFindAll_push str token (depth, tagDepth, h, ret, push, loop, n))
      else if Type token = EndTagToken then
        (if Data token = tag then
           (case index tagDepth n of
              Inl p \<Rightarrow> Inl p
            | Inr d \<Rightarrow>
                HtmlFindAll_push str token
                  (depth - 1, tagDepth, h, ret, (if depth = d then True else push), loop, n))
         else HtmlFindAll_push str token (depth - 1, tagDepth, h, ret, push, loop, n))
      else HtmlFindAll_push str token (depth, tagDepth, h, ret, push, loop, n))"

text \<open>
  \<^verbatim>\<open>for loop { ... }; return ret\<close>. A panic ends the call with \<open>Inl\<close>; a loop that
  runs forever has the value \<open>None\<close>.
\<close>

partial_function (option) HtmlFindAll_loop ::
  "(Token \<Rightarrow> string) \<Rightarrow> string \<Rightarrow> attrCond \<Rightarrow> Tokenizer \<Rightarrow> all_vars \<Rightarrow>
   (panic + string list \<times> Tokenizer) option" where
  "HtmlFindAll_loop str tag attrCond tokenizer vars =
     (case vars of (depth, tagDepth, h, ret, push, loop, n) \<Rightarrow>
        if loop then
          (case Next tokenizer of (tokenizer', pulled) \<Rightarrow>
             (case HtmlFindAll_body str tag attrCond pulled vars of
                Inl p \<Rightarrow> Some (Inl p)
              | Inr vars' \<Rightarrow> HtmlFindAll_loop str tag attrCond tokenizer' vars'))
        else Some (Inr (ret, tokenizer)))"

definition HtmlFindAll ::
  "(Token \<Rightarrow> string) \<Rightarrow> Tokenizer \<Rightarrow> string \<Rightarrow> attrCond \<Rightarrow>
   (panic + string list \<times> Tokenizer) option" where
  "HtmlFindAll str tokenizer tag attrCond =
     HtmlFindAll_loop str tag attrCond tokenizer (0, [], [], [], False, True, - 1)"

section \<open>Token streams for the properties\<close>

text \<open>
  What \<^verbatim>\<open>Token.String()\<close> of \<^verbatim>\<open>golang.org/x/net/html\<close> returns for a token whose data and
  attribute values hold no character that the package escapes. The theorems below hold
  for every \<open>str\<close>; the concrete streams are rendered with this one.
\<close>

definition tagString :: "Token \<Rightarrow> string" where
  "tagString t =
     Data t @ concat (map (\<lambda>a. '' '' @ Key a @ ''='' @ [CHR 0x22] @ Val a @ [CHR 0x22]) (Attr t))"

definition TokenString :: "Token \<Rightarrow> string" where
  "TokenString t =
     (case Type t of
        ErrorToken \<Rightarrow> []
      | TextToken \<Rightarrow> Data t
      | StartTagToken \<Rightarrow> ''<'' @ tagString t @ ''>''
      | EndTagToken \<Rightarrow> ''</'' @ tagString t @ ''>''
      | SelfClosingTagToken \<Rightarrow> ''<'' @ tagString t @ ''/>''
      | CommentToken \<Rightarrow> ''<!--'' @ Data t @ ''-->''
      | DoctypeToken \<Rightarrow> ''<!DOCTYPE '' @ Data t @ ''>'')"

definition attrs :: "(string \<times> string) list \<Rightarrow> Attribute list" where
  "attrs kvs = map (\<lambda>(k, v). \<lparr>Namespace = [], Key = k, Val = v\<rparr>) kvs"

definition StartTag :: "string \<Rightarrow> (string \<times> string) list \<Rightarrow> Token" where
  "StartTag name kvs = \<lparr>Type = StartTagToken, Data = name, Attr = attrs kvs\<rparr>"

definition SelfClosingTag :: "string \<Rightarrow> (string \<times> string) list \<Rightarrow> Token" where
  "SelfClosingTag name kvs = \<lparr>Type = SelfClosingTagToken, Data = name, Attr = attrs kvs\<rparr>"

definition EndTag :: "string \<Rightarrow> Token" where
  "EndTag name = \<lparr>Type = EndTagToken, Data = name, Attr = []\<rparr>"

definition Text :: "string \<Rightarrow> Token" where
  "Text s = \<lparr>Type = TextToken, Data = s, Attr = []\<rparr>"

text \<open>
  The loop of \<open>HtmlFind\<close> over the pending tokens alone, by recursion on the list: the
  variables when the loop stops or the tokens are used up, with the tokens not read.
\<close>

fun HtmlFind_run ::
  "(Token \<Rightarrow> string) \<Rightarrow> string \<Rightarrow> attrCond \<Rightarrow> Token list \<Rightarrow>
   int \<times> int \<times> string \<times> bool \<Rightarrow> (int \<times> int \<times> string \<times> bool) \<times> Token list" where
  "HtmlFind_run str tag attrCond [] vars = (vars, [])"
| "HtmlFind_run str tag attrCond (t # ts) (depth, tagDepth, ret, loop) =
     (if loop then
        HtmlFind_run str tag attrCond ts
          (HtmlFind_body str tag attrCond (t, Err t) (depth, tagDepth, ret, loop))
      else ((depth, tagDepth, ret, loop), t # ts))"

text \<open>
  The body of \<open>HtmlFindAll\<close> run over the pending tokens alone, up to the first panic.
\<close>

fun HtmlFindAll_run ::
  "(Token \<Rightarrow> string) \<Rightarrow> string \<Rightarrow> attrCond \<Rightarrow> Token list \<Rightarrow> all_vars \<Rightarrow> panic + all_vars" where
  "HtmlFindAll_run str tag attrCond [] vars = Inr vars"
| "HtmlFindAll_run str tag attrCond (t # ts) vars =
     (case HtmlFindAll_body str tag attrCond (t, Err t) vars of
        Inl p \<Rightarrow> Inl p
      | Inr vars' \<Rightarrow> HtmlFindAll_run str tag attrCond ts vars')"

text \<open>
  A tag token named \<open>tag\<close>; the change of \<open>depth\<close> over a list of tokens; an element
  named \<open>tag\<close> that satisfies \<open>attrCond\<close>, from its start tag to its end tag, whose content
  has no tag named \<open>tag\<close> and closes every tag it opens.
\<close>

definition named :: "string \<Rightarrow> Token \<Rightarrow> bool" where
  "named tag t =
     ((Type t = StartTagToken \<or> Type t = EndTagToken \<or> Type t = SelfClosingTagToken)
      \<and> Data t = tag)"

fun depth_change :: "Token list \<Rightarrow> int" where
  "depth_change [] = 0"
| "depth_change (t # ts) =
     (if Type t = StartTagToken then 1 else if Type t = EndTagToken then - 1 else 0)
     + depth_change ts"

definition is_element :: "string \<Rightarrow> attrCond \<Rightarrow> Token list \<Rightarrow> bool" where
  "is_element tag attrCond el =
     (case el of
        [] \<Rightarrow> False
      | opn # rest \<Rightarrow>
          rest \<noteq> []
          \<and> Type opn = StartTagToken \<and> Data opn = tag \<and> HtmlCheckAttrs attrCond (Attr opn)
          \<and> Type (last rest) = EndTagToken \<and> Data (last rest) = tag
          \<and> list_all (\<lambda>t. \<not> named tag t) (butlast rest)
          \<and> depth_change (butlast rest) = 0)"

text \<open>
  A start tag that \<open>HtmlFind\<close> and \<open>HtmlFindAll\<close> take for a match.
\<close>

definition matches :: "string \<Rightarrow> attrCond \<Rightarrow> Token \<Rightarrow> bool" where
  "matches tag attrCond t =
     (Type t = StartTagToken \<and> Data t = tag \<and> HtmlCheckAttrs attrCond (Attr t))"

text \<open>
  \<^verbatim>\<open>strings.Join(ps, " ")\<close>, to say what the pieces of \<open>Split\<close> are.
\<close>

definition Join :: "string list \<Rightarrow> string" where
  "Join ps = (case ps of [] \<Rightarrow> [] | p # rest \<Rightarrow> p @ concat (map (\<lambda>q. CHR '' '' # q) rest))"

section \<open>Evaluating the concrete streams\<close>

lemmas stream_defs =
  NewTokenizer_def Next_def Err_def ErrorTok_def StartTag_def SelfClosingTag_def EndTag_def
  Text_def attrs_def TokenString_def tagString_def

section \<open>The attribute predicates\<close>

lemma Split_no_space: "CHR '' '' \<notin> set v \<Longrightarrow> Split v = [v]"
  by (subst Split.simps) simp

lemma Split_space:
  "CHR '' '' \<in> set v \<Longrightarrow>
   Split v = takeWhile (\<lambda>c. c \<noteq> CHR '' '') v # Split (tl (dropWhile (\<lambda>c. c \<noteq> CHR '' '') v))"
  by (subst Split.simps) simp

lemma Split_Nil: "Split [] = [[]]"
  by (simp add: Split_no_space)

lemma Split_Cons_space: "Split (CHR '' '' # v) = [] # Split v"
  by (subst Split.simps) simp

lemma Split_Cons_other:
  assumes "c \<noteq> CHR '' ''"
  shows "Split (c # v) = (c # hd (Split v)) # tl (Split v)"
proof (cases "CHR '' '' \<in> set v")
  case True
  have "Split (c # v) =
      takeWhile (\<lambda>c. c \<noteq> CHR '' '') (c # v) # Split (tl (dropWhile (\<lambda>c. c \<noteq> CHR '' '') (c # v)))"
    using True by (subst Split.simps) simp
  also have "\<dots> =
      (c # takeWhile (\<lambda>c. c \<noteq> CHR '' '') v) # Split (tl (dropWhile (\<lambda>c. c \<noteq> CHR '' '') v))"
    using assms by simp
  finally show ?thesis
    using True by (simp add: Split_space)
next
  case False
  then show ?thesis
    using assms by (simp add: Split_no_space)
qed

lemma Split_not_Nil: "Split v \<noteq> []"
  by (subst Split.simps) simp

text \<open>
  What \<open>Split\<close> returns: pieces without a space which, joined by single spaces, give the
  string back, one more than the string has spaces.
\<close>

theorem Split_pieces:
  "Join (Split v) = v \<and> list_all (\<lambda>p. CHR '' '' \<notin> set p) (Split v)
   \<and> length (Split v) = count_list v (CHR '' '') + 1"
proof (induction v)
  case Nil
  show ?case by (simp add: Split_Nil Join_def)
next
  case (Cons c v)
  obtain p ps where sp: "Split v = p # ps"
    using Split_not_Nil[of v] by (cases "Split v") auto
  show ?case
  proof (cases "c = CHR '' ''")
    case True
    then show ?thesis
      using Cons.IH by (simp add: Split_Cons_space Join_def sp)
  next
    case False
    then show ?thesis
      using Cons.IH by (simp add: Split_Cons_other Join_def sp)
  qed
qed

lemma Split_append_space:
  "CHR '' '' \<notin> set p \<Longrightarrow> Split (p @ CHR '' '' # v) = p # Split v"
proof (induction p)
  case Nil
  show ?case by (simp add: Split_Cons_space)
next
  case (Cons a p)
  then have a: "a \<noteq> CHR '' ''" and p: "CHR '' '' \<notin> set p" by auto
  show ?case
    using Cons.IH[OF p] by (simp add: Split_Cons_other[OF a])
qed

lemma Split_Join:
  "ps \<noteq> [] \<Longrightarrow> list_all (\<lambda>p. CHR '' '' \<notin> set p) ps \<Longrightarrow> Split (Join ps) = ps"
proof (induction ps)
  case Nil
  then show ?case by simp
next
  case (Cons p ps)
  show ?case
  proof (cases ps)
    case Nil
    then show ?thesis
      using Cons.prems by (simp add: Join_def Split_no_space)
  next
    case (Cons q qs)
    have "Join (p # ps) = p @ CHR '' '' # Join ps"
      by (simp add: Join_def Cons)
    then show ?thesis
      using Cons.prems Cons.IH Cons by (simp add: Split_append_space)
  qed
qed

text \<open>
  C7. The predicate \<open>HtmlKeyInAttr key target\<close> is false on every pair whose key is not
  \<open>key\<close>, whatever the value. On a pair with that key, a value with a space satisfies it
  iff \<open>target\<close> is one of the pieces of the value split at single spaces, and a value
  without a space iff it equals \<open>target\<close>. For the target \<open>foo\<close>: \<open>bar foo baz\<close> yields
  true, \<open>foobar\<close> false, \<open>foo\<close> true.
\<close>

theorem HtmlKeyInAttr_class_list:
  "HtmlKeyInAttr key target k v =
     (k = key \<and> (if CHR '' '' \<in> set v then target \<in> set (Split v) else v = target))
   \<and> HtmlKeyInAttr key ''foo'' key ''bar foo baz'' = True
   \<and> HtmlKeyInAttr key ''foo'' key ''foobar'' = False
   \<and> HtmlKeyInAttr key ''foo'' key ''foo'' = True"
  by (simp add: HtmlKeyInAttr_def list_ex_iff Split_Cons_space Split_Cons_other Split_Nil)

lemma HtmlCheckAttrs_Some: "HtmlCheckAttrs (Some f) attr = (\<exists>i\<in>set attr. f (Key i) (Val i))"
  by (induction attr) auto

text \<open>
  C8. \<open>HtmlCheckAttrs\<close> is true on every attribute list when the predicate is none.
  With a predicate it is true iff some pair of the list satisfies the predicate; the
  first pair decides when it satisfies the predicate, whatever follows it, and the
  rest of the list decides otherwise; on the empty list it is false.
\<close>

theorem HtmlCheckAttrs_holds:
  "HtmlCheckAttrs None attr = True
   \<and> HtmlCheckAttrs (Some f) attr = (\<exists>i\<in>set attr. f (Key i) (Val i))
   \<and> HtmlCheckAttrs (Some f) (i # rest) =
       (if f (Key i) (Val i) then True else HtmlCheckAttrs (Some f) rest)
   \<and> HtmlCheckAttrs (Some f) [] = False"
  by (simp add: HtmlCheckAttrs_Some)

section \<open>The loop of HtmlFind\<close>

text \<open>
  The loop unfolded once: stopped, on a pending token, and at the end of the tokens with
  either error. After an error that is not \<^verbatim>\<open>io.EOF\<close> the body leaves \<open>loop\<close> set and the
  tokenizer reports the same error again, so the loop never returns.
\<close>

lemma HtmlFind_loop_stopped:
  "HtmlFind_loop str tag c z (d, td, r, False) = Some (r, z)"
  by (subst HtmlFind_loop.simps) simp

lemma HtmlFind_loop_Cons:
  "HtmlFind_loop str tag c \<lparr>pending = t # ts, ending = e\<rparr> (d, td, r, True) =
   HtmlFind_loop str tag c \<lparr>pending = ts, ending = e\<rparr>
     (HtmlFind_body str tag c (t, Err t) (d, td, r, True))"
  by (subst HtmlFind_loop.simps) (simp add: Next_def)

lemma HtmlFind_loop_EOF:
  "HtmlFind_loop str tag c \<lparr>pending = [], ending = EOF\<rparr> (d, td, r, True) =
   Some (WriteString str ErrorTok td r, \<lparr>pending = [], ending = EOF\<rparr>)"
  by (subst HtmlFind_loop.simps) (simp add: Next_def ErrorTok_def HtmlFind_loop_stopped)

lemma HtmlFind_loop_stuck_aux:
  assumes "HtmlFind_loop str tag c z vars = Some y"
  shows "\<not> (pending z = [] \<and> ending z = ErrOther \<and> snd (snd (snd vars)))"
proof (rule HtmlFind_loop.raw_induct
    [where P = "\<lambda>str tag c z vars y.
        \<not> (pending z = [] \<and> ending z = ErrOther \<and> snd (snd (snd vars)))",
      OF _ assms])
  fix f str tag c z vars y
  assume IH: "\<And>str tag c z vars y. f str tag c z vars = Some y \<Longrightarrow>
                \<not> (pending z = [] \<and> ending z = ErrOther \<and> snd (snd (snd vars)))"
    and step: "(case vars of
        (depth, tagDepth, ret, loop) \<Rightarrow>
          if loop
          then case Next z of
               (tokenizer', pulled) \<Rightarrow>
                 f str tag c tokenizer' (HtmlFind_body str tag c pulled vars)
          else Some (ret, z)) = Some y"
  show "\<not> (pending z = [] \<and> ending z = ErrOther \<and> snd (snd (snd vars)))"
  proof
    assume a: "pending z = [] \<and> ending z = ErrOther \<and> snd (snd (snd vars))"
    obtain d td r where v: "vars = (d, td, r, True)"
      using a by (cases vars) auto
    have "f str tag c z (d, td, WriteString str ErrorTok td r, True) = Some y"
      using step a by (simp add: v Next_def ErrorTok_def)
    from IH[OF this] show False using a by simp
  qed
qed

lemma HtmlFind_loop_stuck:
  "HtmlFind_loop str tag c \<lparr>pending = [], ending = ErrOther\<rparr> (d, td, r, True) = None"
  using HtmlFind_loop_stuck_aux
    [of str tag c "\<lparr>pending = [], ending = ErrOther\<rparr>" "(d, td, r, True)"]
  by (cases "HtmlFind_loop str tag c \<lparr>pending = [], ending = ErrOther\<rparr> (d, td, r, True)") auto

lemma HtmlFind_loop_run:
  "HtmlFind_loop str tag c \<lparr>pending = ts, ending = e\<rparr> vars =
     (case HtmlFind_run str tag c ts vars of
        ((depth, tagDepth, ret, loop), rest) \<Rightarrow>
          if loop then
            (if e = EOF
             then Some (WriteString str ErrorTok tagDepth ret, \<lparr>pending = [], ending = e\<rparr>)
             else None)
          else Some (ret, \<lparr>pending = rest, ending = e\<rparr>))"
proof (induction ts arbitrary: vars)
  case Nil
  obtain d td r l where v: "vars = (d, td, r, l)" by (cases vars) auto
  show ?case
  proof (cases l)
    case True
    then show ?thesis
      by (cases e) (simp_all add: v HtmlFind_loop_EOF HtmlFind_loop_stuck)
  next
    case False
    then show ?thesis by (simp add: v HtmlFind_loop_stopped)
  qed
next
  case (Cons t ts)
  obtain d td r l where v: "vars = (d, td, r, l)" by (cases vars) auto
  show ?case
  proof (cases l)
    case True
    then show ?thesis
      unfolding v by (simp only: HtmlFind_loop_Cons HtmlFind_run.simps if_True Cons.IH)
  next
    case False
    then show ?thesis by (simp add: v HtmlFind_loop_stopped)
  qed
qed

lemma HtmlFind_eq_run:
  "HtmlFind str (NewTokenizer ts e) tag c =
     (case HtmlFind_run str tag c ts (0, - 1, [], True) of
        ((depth, tagDepth, ret, loop), rest) \<Rightarrow>
          if loop then
            (if e = EOF
             then Some (WriteString str ErrorTok tagDepth ret, NewTokenizer [] e)
             else None)
          else Some (ret, NewTokenizer rest e))"
  by (simp add: HtmlFind_def NewTokenizer_def HtmlFind_loop_run split: prod.splits)

lemma HtmlFind_EOF_returns: "\<exists>r z. HtmlFind str (NewTokenizer ts EOF) tag c = Some (r, z)"
  by (simp add: HtmlFind_eq_run split: prod.splits)

lemma HtmlFind_ErrOther_EOF:
  "HtmlFind str (NewTokenizer ts ErrOther) tag c = Some (r, z) \<Longrightarrow>
   HtmlFind str (NewTokenizer ts EOF) tag c = Some (r, z\<lparr>ending := EOF\<rparr>)"
  unfolding HtmlFind_eq_run
  by (auto simp: NewTokenizer_def split: prod.splits if_splits)

lemma HtmlFind_run_rest_loop:
  "HtmlFind_run str tag c ts vars = ((d, td, r, l), rest) \<Longrightarrow> rest \<noteq> [] \<Longrightarrow> \<not> l"
proof (induction ts arbitrary: vars)
  case Nil
  then show ?case by simp
next
  case (Cons t ts)
  obtain d0 td0 r0 l0 where v: "vars = (d0, td0, r0, l0)" by (cases vars) auto
  show ?case
  proof (cases l0)
    case True
    with Cons.prems v
    have "HtmlFind_run str tag c ts (HtmlFind_body str tag c (t, Err t) vars)
          = ((d, td, r, l), rest)"
      by simp
    from Cons.IH[OF this Cons.prems(2)] show ?thesis .
  next
    case False
    with Cons.prems v show ?thesis by simp
  qed
qed

lemma HtmlFind_EOF_ErrOther:
  "HtmlFind str (NewTokenizer ts EOF) tag c = Some (r, z) \<Longrightarrow> pending z \<noteq> [] \<Longrightarrow>
   HtmlFind str (NewTokenizer ts ErrOther) tag c = Some (r, z\<lparr>ending := ErrOther\<rparr>)"
  unfolding HtmlFind_eq_run
  by (auto simp: NewTokenizer_def split: prod.splits if_splits dest: HtmlFind_run_rest_loop)

lemma AttrLoop_HtmlCheckAttrs:
  "AttrLoop f attr depth tagDepth = (if HtmlCheckAttrs (Some f) attr then depth else tagDepth)"
  by (induction attr) auto

lemma HtmlFind_body_no_match:
  assumes "\<not> matches tag c t"
  shows "\<exists>d' l'. HtmlFind_body str tag c (t, Err t) (d, - 1, [], l) = (d', - 1, [], l')"
  using assms
  by (cases "Type t"; cases c)
     (auto simp: matches_def WriteString_def AttrLoop_HtmlCheckAttrs Let_def)

lemma HtmlFind_run_no_match:
  "list_all (\<lambda>t. \<not> matches tag c t) ts \<Longrightarrow>
   \<exists>d' l' rest. HtmlFind_run str tag c ts (d, - 1, [], l) = ((d', - 1, [], l'), rest)"
proof (induction ts arbitrary: d l)
  case Nil
  show ?case by simp
next
  case (Cons t ts)
  then have t: "\<not> matches tag c t" and ts: "list_all (\<lambda>t. \<not> matches tag c t) ts"
    by simp_all
  from HtmlFind_body_no_match[OF t, of str d l] obtain d1 l1 where
    b: "HtmlFind_body str tag c (t, Err t) (d, - 1, [], l) = (d1, - 1, [], l1)" by blast
  show ?case
    using Cons.IH[OF ts, of d1 l1] b by (cases l) (auto simp del: HtmlFind_body.simps)
qed

text \<open>
  Without a start tag named \<open>tag\<close> that satisfies the predicate, \<open>HtmlFind\<close> returns the
  empty string on every stream that ends with clean end-of-stream.
\<close>

theorem HtmlFind_no_match:
  assumes "list_all (\<lambda>t. \<not> matches tag c t) ts"
  shows "\<exists>z. HtmlFind str (NewTokenizer ts EOF) tag c = Some ([], z)"
proof -
  from HtmlFind_run_no_match[OF assms, of str 0 True] obtain d' l' rest where
    "HtmlFind_run str tag c ts (0, - 1, [], True) = ((d', - 1, [], l'), rest)" by blast
  then show ?thesis
    by (simp add: HtmlFind_eq_run WriteString_def)
qed

theorem HtmlFind_no_match_witness:
  "\<exists>z. HtmlFind TokenString
         (NewTokenizer [StartTag ''div'' [(''class'', ''b'')], Text ''x'', EndTag ''div''] EOF)
         ''div'' (Some (HtmlKeyInAttr ''class'' ''a''))
       = Some ([], z)"
  using HtmlFind_no_match
    [of "''div''" "Some (HtmlKeyInAttr ''class'' ''a'')"
        "[StartTag ''div'' [(''class'', ''b'')], Text ''x'', EndTag ''div'']" TokenString]
  by (simp add: matches_def HtmlKeyInAttr_def StartTag_def EndTag_def Text_def attrs_def)

lemma HtmlFind_run_stopped:
  "HtmlFind_run str tag c ts (d, td, r, False) = ((d, td, r, False), ts)"
  by (cases ts) simp_all

lemma HtmlFind_run_append:
  "HtmlFind_run str tag c (xs @ ys) vars =
     (case HtmlFind_run str tag c xs vars of
        ((d, td, r, l), rest) \<Rightarrow>
          if l then HtmlFind_run str tag c ys (d, td, r, l) else ((d, td, r, l), rest @ ys))"
proof (induction xs arbitrary: vars)
  case Nil
  obtain d td r l where v: "vars = (d, td, r, l)" by (cases vars) auto
  show ?case by (cases l) (simp_all add: v HtmlFind_run_stopped)
next
  case (Cons t xs)
  obtain d td r l where v: "vars = (d, td, r, l)" by (cases vars) auto
  show ?case
    using Cons.IH by (cases l) (simp_all add: v del: HtmlFind_body.simps)
qed

lemma HtmlFind_body_outside:
  assumes "\<not> named tag t"
  shows "HtmlFind_body str tag c (t, Err t) (d, - 1, r, True) = (d + depth_change [t], - 1, r, True)"
  using assms by (cases "Type t") (auto simp: named_def Err_def WriteString_def)

lemma HtmlFind_body_inside:
  assumes "\<not> named tag t" and "td \<noteq> - 1"
  shows "HtmlFind_body str tag c (t, Err t) (d, td, r, True) =
         (d + depth_change [t], td, r @ str t, True)"
  using assms by (cases "Type t") (auto simp: named_def Err_def WriteString_def)

lemma HtmlFind_run_outside:
  "list_all (\<lambda>t. \<not> named tag t) xs \<Longrightarrow>
   HtmlFind_run str tag c xs (d, - 1, r, True) = ((d + depth_change xs, - 1, r, True), [])"
proof (induction xs arbitrary: d)
  case Nil
  show ?case by simp
next
  case (Cons t xs)
  then have t: "\<not> named tag t" and xs: "list_all (\<lambda>t. \<not> named tag t) xs" by simp_all
  show ?case
    using HtmlFind_body_outside[OF t, of str c d r] Cons.IH[OF xs]
    by (simp add: algebra_simps del: HtmlFind_body.simps)
qed

lemma HtmlFind_run_inside:
  "list_all (\<lambda>t. \<not> named tag t) xs \<Longrightarrow> td \<noteq> - 1 \<Longrightarrow>
   HtmlFind_run str tag c xs (d, td, r, True) =
   ((d + depth_change xs, td, r @ concat (map str xs), True), [])"
proof (induction xs arbitrary: d r)
  case Nil
  show ?case by simp
next
  case (Cons t xs)
  then have t: "\<not> named tag t" and xs: "list_all (\<lambda>t. \<not> named tag t) xs" by simp_all
  show ?case
    using HtmlFind_body_inside[OF t Cons.prems(2), of str c d r] Cons.IH[OF xs Cons.prems(2)]
    by (simp add: algebra_simps del: HtmlFind_body.simps)
qed

lemma HtmlFind_body_open:
  assumes "Type t = StartTagToken" and "Data t = tag" and "HtmlCheckAttrs c (Attr t)"
    and "d \<noteq> - 2"
  shows "HtmlFind_body str tag c (t, Err t) (d, - 1, r, True) =
         (d + 1, d + 1, (case c of None \<Rightarrow> r | Some f \<Rightarrow> r @ str t), True)"
  using assms by (cases c) (auto simp: WriteString_def AttrLoop_HtmlCheckAttrs Let_def)

lemma HtmlFind_body_close:
  assumes "Type t = EndTagToken" and "Data t = tag" and "d \<noteq> - 1"
  shows "HtmlFind_body str tag c (t, Err t) (d, d, r, True) = (d - 1, d, r @ str t, False)"
  using assms by (simp add: WriteString_def)

lemma concat_map_snoc:
  "xs \<noteq> [] \<Longrightarrow> concat (map f xs) = concat (map f (butlast xs)) @ f (last xs)"
  by (induction xs) auto

text \<open>
  The first element named \<open>tag\<close> that satisfies the predicate, after tokens that are no
  tag named \<open>tag\<close>: with a predicate \<open>HtmlFind\<close> returns the renderings of the element's
  tokens from its start tag to its end tag and leaves the tokens after the end tag
  unread; with no predicate the start tag is missing from the result. The depth before
  the element must not be \<open>-2\<close>, or the element would open at depth \<open>-1\<close>, the value
  that stands for "no capture".
\<close>

theorem HtmlFind_element:
  assumes "is_element tag c el"
    and "list_all (\<lambda>t. \<not> named tag t) before"
    and "depth_change before \<noteq> - 2"
  shows "HtmlFind str (NewTokenizer (before @ el @ rest) e) tag c
         = Some (concat (map str (case c of None \<Rightarrow> tl el | Some f \<Rightarrow> el)), NewTokenizer rest e)"
proof -
  from assms(1) obtain opn content where el: "el = opn # content" and content: "content \<noteq> []"
    and opn: "Type opn = StartTagToken" "Data opn = tag" "HtmlCheckAttrs c (Attr opn)"
    and cls: "Type (last content) = EndTagToken" "Data (last content) = tag"
    and body: "list_all (\<lambda>t. \<not> named tag t) (butlast content)"
      "depth_change (butlast content) = 0"
    by (auto simp: is_element_def split: list.splits)
  let ?d = "depth_change before"
  let ?r = "case c of None \<Rightarrow> [] | Some f \<Rightarrow> str opn"
  have split: "before @ el @ rest = before @ opn # butlast content @ last content # rest"
    using el content by simp
  have d1: "?d + 1 \<noteq> - 1" using assms(3) by simp
  have "HtmlFind_run str tag c (before @ opn # butlast content @ last content # rest)
          (0, - 1, [], True)
        = ((?d, ?d + 1, ?r @ concat (map str (butlast content)) @ str (last content), False), rest)"
    using HtmlFind_body_open[OF opn assms(3), of str "[]"]
      HtmlFind_body_close[OF cls d1, of str c]
    by (simp add: HtmlFind_run_append HtmlFind_run_outside[OF assms(2)]
        HtmlFind_run_inside[OF body(1) d1] body(2) HtmlFind_run_stopped
        del: HtmlFind_body.simps split: option.splits)
  moreover have "?r @ concat (map str (butlast content)) @ str (last content)
        = concat (map str (case c of None \<Rightarrow> tl el | Some f \<Rightarrow> el))"
  proof -
    have "concat (map str content) = concat (map str (butlast content)) @ str (last content)"
      using content by (rule concat_map_snoc)
    then show ?thesis
      by (simp add: el split: option.splits)
  qed
  ultimately show ?thesis
    by (simp add: split HtmlFind_eq_run)
qed

theorem HtmlFind_element_witness:
  "HtmlFind TokenString
     (NewTokenizer
        [Text ''a'',
         StartTag ''div'' [(''class'', ''entry-content'')], StartTag ''p'' [], Text ''x'',
         EndTag ''p'', EndTag ''div'',
         Text ''z''] EOF)
     ''div'' (Some (HtmlKeyInAttr ''class'' ''entry-content''))
   = Some (''<div class='' @ [CHR 0x22] @ ''entry-content'' @ [CHR 0x22] @ ''><p>x</p></div>'',
           NewTokenizer [Text ''z''] EOF)"
  using HtmlFind_element
    [of "''div''" "Some (HtmlKeyInAttr ''class'' ''entry-content'')"
        "[StartTag ''div'' [(''class'', ''entry-content'')], StartTag ''p'' [], Text ''x'',
          EndTag ''p'', EndTag ''div'']"
        "[Text ''a'']" TokenString "[Text ''z'']" EOF]
  by (simp add: is_element_def named_def HtmlKeyInAttr_def
      StartTag_def EndTag_def Text_def attrs_def TokenString_def tagString_def)

text \<open>
  C9. \<open>HtmlFindByAttr tokenizer tag key value\<close> returns what \<open>HtmlFind\<close> returns on the
  same tokenizer and tag with the predicate \<open>HtmlKeyInAttr key value\<close>, and leaves the
  tokenizer in the same state.
\<close>

theorem HtmlFindByAttr_is_HtmlFind:
  "HtmlFindByAttr str tokenizer tag key value =
   HtmlFind str tokenizer tag (Some (HtmlKeyInAttr key value))"
  by (simp add: HtmlFindByAttr_def)

text \<open>
  C10. When the first two tokens are end tags named \<open>tag\<close>, the first brings \<open>depth\<close> to
  \<open>-1\<close>, the value \<open>tagDepth\<close> starts with, and the second ends the loop: \<open>HtmlFind\<close>
  returns the empty string and leaves every token after the second end tag unread,
  whatever they are.
\<close>

theorem HtmlFind_two_end_tags:
  assumes "Type c1 = EndTagToken" and "Data c1 = tag"
    and "Type c2 = EndTagToken" and "Data c2 = tag"
  shows "HtmlFind str (NewTokenizer (c1 # c2 # rest) e) tag attrCond
         = Some ([], NewTokenizer rest e)"
  using assms
  by (simp add: HtmlFind_def HtmlFind_loop.simps NewTokenizer_def Next_def WriteString_def)

theorem HtmlFind_two_end_tags_witness:
  "HtmlFind TokenString
     (NewTokenizer
        [EndTag ''div'', EndTag ''div'', StartTag ''div'' [], Text ''x'', EndTag ''div''] EOF)
     ''div'' None
   = Some ([], NewTokenizer [StartTag ''div'' [], Text ''x'', EndTag ''div''] EOF)"
  using HtmlFind_two_end_tags
    [of "EndTag ''div''" "''div''" "EndTag ''div''" TokenString
        "[StartTag ''div'' [], Text ''x'', EndTag ''div'']" EOF None]
  by (simp add: EndTag_def)

text \<open>
  C2. The claim: when an element named \<open>tag\<close> holds another element of that name,
  \<open>HtmlFind\<close> matching the outer one returns a fragment that runs to the outer
  element's own end tag. The code sets \<open>tagDepth\<close> at every start tag that matches, also
  while a capture is active, so an inner element that matches too moves \<open>tagDepth\<close> to
  its own depth and its end tag ends the loop. On
  \<^verbatim>\<open><div class="a"><div class="a"></div></div>\<close> with the predicate "class holds a" the
  result stops after the inner \<^verbatim>\<open></div>\<close> and the outer end tag is left unread; with
  no predicate the result is the inner \<^verbatim>\<open></div>\<close> alone.
\<close>

theorem HtmlFind_nested_stops_at_inner_end_tag:
  "HtmlFind TokenString
     (NewTokenizer
        [StartTag ''div'' [(''class'', ''a'')], StartTag ''div'' [(''class'', ''a'')],
         EndTag ''div'', EndTag ''div''] EOF)
     ''div'' (Some (HtmlKeyInAttr ''class'' ''a''))
   = Some (TokenString (StartTag ''div'' [(''class'', ''a'')])
           @ TokenString (StartTag ''div'' [(''class'', ''a'')]) @ ''</div>'',
           NewTokenizer [EndTag ''div''] EOF)
   \<and> HtmlFind TokenString
       (NewTokenizer [StartTag ''div'' [], StartTag ''div'' [], EndTag ''div'', EndTag ''div''] EOF)
       ''div'' None
     = Some (''</div>'', NewTokenizer [EndTag ''div''] EOF)"
  by (simp add: HtmlFind_def HtmlFind_loop.simps stream_defs WriteString_def HtmlKeyInAttr_def)

text \<open>
  C3. The claim: on a well-formed stream with one element named \<open>T\<close>, \<open>HtmlFind\<close> with
  no predicate returns the element from its start tag to its end tag, both included.
  With no predicate the code leaves the \<^verbatim>\<open>StartTagToken\<close> case by \<^verbatim>\<open>continue\<close>, which
  skips the write after the \<^verbatim>\<open>switch\<close>: the start tag is missing from the result. On
  \<^verbatim>\<open><p>x</p>\<close> the result is \<^verbatim>\<open>x</p>\<close>.
\<close>

theorem HtmlFind_no_predicate_drops_start_tag:
  "HtmlFind TokenString (NewTokenizer [StartTag ''p'' [], Text ''x'', EndTag ''p''] EOF) ''p'' None
   = Some (''x</p>'', NewTokenizer [] EOF)"
  by (simp add: HtmlFind_def HtmlFind_loop.simps stream_defs WriteString_def)

text \<open>
  C4. The claim: a self-closing token named \<open>tag\<close> that satisfies the predicate is a
  match of its own, and \<open>HtmlFind\<close> returns its rendering. In \<open>HtmlFind\<close> the
  \<^verbatim>\<open>continue\<close> at the head of the \<^verbatim>\<open>SelfClosingTagToken\<close> case skips such a token: on the
  stream \<^verbatim>\<open><br/>\<close> the result is empty.
\<close>

theorem HtmlFind_skips_self_closing:
  "HtmlFind TokenString (NewTokenizer [SelfClosingTag ''br'' []] EOF) ''br'' None
   = Some ([], NewTokenizer [] EOF)
   \<and> TokenString (SelfClosingTag ''br'' []) = ''<br/>''"
  by (simp add: HtmlFind_def HtmlFind_loop.simps stream_defs WriteString_def)

section \<open>The loop of HtmlFindAll\<close>

lemma HtmlFindAll_loop_stopped:
  "HtmlFindAll_loop str tag c z (d, td, h, r, p, False, n) = Some (Inr (r, z))"
  by (subst HtmlFindAll_loop.simps) simp

lemma HtmlFindAll_loop_Cons:
  "HtmlFindAll_loop str tag c \<lparr>pending = t # ts, ending = e\<rparr> (d, td, h, r, p, True, n) =
     (case HtmlFindAll_body str tag c (t, Err t) (d, td, h, r, p, True, n) of
        Inl x \<Rightarrow> Some (Inl x)
      | Inr vars' \<Rightarrow> HtmlFindAll_loop str tag c \<lparr>pending = ts, ending = e\<rparr> vars')"
  by (subst HtmlFindAll_loop.simps) (simp add: Next_def)

lemma HtmlFindAll_loop_Nil:
  "HtmlFindAll_loop str tag c \<lparr>pending = [], ending = e\<rparr> (d, td, h, r, p, True, n) =
     (case HtmlFindAll_body str tag c (ErrorTok, Some e) (d, td, h, r, p, True, n) of
        Inl x \<Rightarrow> Some (Inl x)
      | Inr vars' \<Rightarrow> HtmlFindAll_loop str tag c \<lparr>pending = [], ending = e\<rparr> vars')"
  by (subst HtmlFindAll_loop.simps) (simp add: Next_def)

text \<open>The flags after a run of the body.\<close>

lemma HtmlFindAll_push_flags:
  "HtmlFindAll_push str t (d, td, h, r, p, l, n) = Inr (d', td', h', r', p', l', n') \<Longrightarrow>
   \<not> p' \<and> l' = l"
  by (auto simp: HtmlFindAll_push_def Let_def split: sum.splits if_splits)

lemma HtmlFindAll_body_flags:
  assumes "HtmlFindAll_body str tag c (t, err) (d, td, h, r, p, l, n)
           = Inr (d', td', h', r', p', l', n')"
  shows "\<not> p' \<and> l' = (l \<and> \<not> (Type t = ErrorToken \<and> err = Some EOF))"
  using assms
  by (auto simp: Let_def split: if_splits sum.splits dest: HtmlFindAll_push_flags)

lemma Err_not_EOF: "Err t \<noteq> Some EOF"
  by (simp add: Err_def)

lemma HtmlFindAll_loop_run:
  "HtmlFindAll_loop str tag c \<lparr>pending = ts, ending = e\<rparr> (d, td, h, r, p, True, n) =
     (case HtmlFindAll_run str tag c ts (d, td, h, r, p, True, n) of
        Inl x \<Rightarrow> Some (Inl x)
      | Inr vars' \<Rightarrow> HtmlFindAll_loop str tag c \<lparr>pending = [], ending = e\<rparr> vars')"
proof (induction ts arbitrary: d td h r p n)
  case Nil
  show ?case by simp
next
  case (Cons t ts)
  show ?case
  proof (cases "HtmlFindAll_body str tag c (t, Err t) (d, td, h, r, p, True, n)")
    case (Inl x)
    then show ?thesis by (simp add: HtmlFindAll_loop_Cons)
  next
    case (Inr vars')
    obtain d' td' h' r' p' l' n' where v: "vars' = (d', td', h', r', p', l', n')"
      by (cases vars' rule: prod_cases7)
    have l': "l' = True"
      using HtmlFindAll_body_flags[OF Inr[unfolded v]] by (simp add: Err_not_EOF)
    show ?thesis
      using Inr by (simp add: HtmlFindAll_loop_Cons v l' Cons.IH)
  qed
qed

lemma HtmlFindAll_loop_EOF:
  "HtmlFindAll_loop str tag c \<lparr>pending = [], ending = EOF\<rparr> (d, td, h, r, False, True, n) =
   Some (Inr (r, \<lparr>pending = [], ending = EOF\<rparr>))"
  by (simp add: HtmlFindAll_loop_Nil ErrorTok_def HtmlFindAll_push_def HtmlFindAll_loop_stopped)

lemma HtmlFindAll_never_returns_aux:
  assumes "HtmlFindAll_loop str tag c z vars = Some y"
  shows "\<not> (ending z = ErrOther \<and> fst (snd (snd (snd (snd (snd vars))))) \<and> (\<exists>x. y = Inr x))"
proof (rule HtmlFindAll_loop.raw_induct
    [where P = "\<lambda>str tag c z vars y.
        \<not> (ending z = ErrOther \<and> fst (snd (snd (snd (snd (snd vars))))) \<and> (\<exists>x. y = Inr x))",
      OF _ assms])
  fix f str tag c z vars y
  assume IH: "\<And>str tag c z vars y. f str tag c z vars = Some y \<Longrightarrow>
      \<not> (ending z = ErrOther \<and> fst (snd (snd (snd (snd (snd vars))))) \<and> (\<exists>x. y = Inr x))"
    and step: "(case vars of
        (depth, tagDepth, h, ret, push, loop, n) \<Rightarrow>
          if loop
          then case Next z of
               (tokenizer', pulled) \<Rightarrow>
                 (case HtmlFindAll_body str tag c pulled vars of
                    Inl p \<Rightarrow> Some (Inl p)
                  | Inr vars' \<Rightarrow> f str tag c tokenizer' vars')
          else Some (Inr (ret, z))) = Some y"
  show "\<not> (ending z = ErrOther \<and> fst (snd (snd (snd (snd (snd vars))))) \<and> (\<exists>x. y = Inr x))"
  proof
    assume a: "ending z = ErrOther \<and> fst (snd (snd (snd (snd (snd vars))))) \<and> (\<exists>x. y = Inr x)"
    obtain d td h r p l n where v: "vars = (d, td, h, r, p, l, n)"
      by (cases vars rule: prod_cases7)
    have l: "l" using a v by simp
    obtain z' t err where nx: "Next z = (z', t, err)"
      by (cases "Next z" rule: prod_cases3)
    have z': "ending z' = ErrOther" and err: "err \<noteq> Some EOF"
      using nx a by (auto simp: Next_def Err_def split: list.splits if_splits)
    show False
    proof (cases "HtmlFindAll_body str tag c (t, err) vars")
      case (Inl x)
      with step a v l nx show False by auto
    next
      case (Inr vars')
      obtain d' td' h' r' p' l' n' where v': "vars' = (d', td', h', r', p', l', n')"
        by (cases vars' rule: prod_cases7)
      have "l'" using HtmlFindAll_body_flags[OF Inr[unfolded v v']] l err by simp
      moreover have "f str tag c z' vars' = Some y"
        using step v l nx Inr by simp
      ultimately show False using IH[of str tag c z' vars' y] a z' v' by simp
    qed
  qed
qed

lemma HtmlFindAll_ErrOther_never_returns:
  "HtmlFindAll str (NewTokenizer ts ErrOther) tag c \<noteq> Some (Inr x)"
  using HtmlFindAll_never_returns_aux
    [of str tag c "NewTokenizer ts ErrOther" "(0, [], [], [], False, True, - 1)" "Inr x"]
  by (auto simp: HtmlFindAll_def NewTokenizer_def)

text \<open>
  C1. The claim: neither extractor ever panics, and without a match \<open>HtmlFindAll\<close>
  returns the empty sequence. \<open>HtmlFindAll\<close> reads \<open>tagDepth[n]\<close> at every end tag named
  \<open>tag\<close>; with no capture open \<open>n\<close> is \<open>-1\<close> and the read panics. That happens on the
  stream \<^verbatim>\<open></div>\<close>, and on the well-formed \<^verbatim>\<open><div class="b"></div>\<close> when the predicate
  asks for the class \<open>a\<close>.
\<close>

theorem HtmlFindAll_panics_without_capture:
  "HtmlFindAll TokenString (NewTokenizer [EndTag ''div''] EOF) ''div'' None
   = Some (Inl IndexOutOfRange)
   \<and> HtmlFindAll TokenString
       (NewTokenizer [StartTag ''div'' [(''class'', ''b'')], EndTag ''div''] EOF)
       ''div'' (Some (HtmlKeyInAttr ''class'' ''a''))
     = Some (Inl IndexOutOfRange)"
  by (simp add: HtmlFindAll_def HtmlFindAll_loop.simps stream_defs index_def
      HtmlFindAll_push_def HtmlKeyInAttr_def)

text \<open>The body over tokens that are no tag named \<open>tag\<close>, and over one element.\<close>

lemma HtmlFindAll_run_append:
  "HtmlFindAll_run str tag c (xs @ ys) vars =
     (case HtmlFindAll_run str tag c xs vars of
        Inl x \<Rightarrow> Inl x
      | Inr vars' \<Rightarrow> HtmlFindAll_run str tag c ys vars')"
  by (induction xs arbitrary: vars) (auto split: sum.splits)

lemma HtmlFindAll_body_outside:
  assumes "\<not> named tag t"
  shows "HtmlFindAll_body str tag c (t, Err t) (d, [], [], r, False, True, - 1) =
         Inr (d + depth_change [t], [], [], r, False, True, - 1)"
  using assms by (cases "Type t") (auto simp: named_def Err_def HtmlFindAll_push_def)

lemma HtmlFindAll_body_inside:
  assumes "\<not> named tag t"
  shows "HtmlFindAll_body str tag c (t, Err t) (d, [d0], [b], r, False, True, 0) =
         Inr (d + depth_change [t], [d0], [b @ str t], r, False, True, 0)"
  using assms by (cases "Type t") (auto simp: named_def Err_def HtmlFindAll_push_def)

lemma HtmlFindAll_run_outside:
  "list_all (\<lambda>t. \<not> named tag t) xs \<Longrightarrow>
   HtmlFindAll_run str tag c xs (d, [], [], r, False, True, - 1) =
   Inr (d + depth_change xs, [], [], r, False, True, - 1)"
proof (induction xs arbitrary: d)
  case Nil
  show ?case by simp
next
  case (Cons t xs)
  then have t: "\<not> named tag t" and xs: "list_all (\<lambda>t. \<not> named tag t) xs" by simp_all
  show ?case
    using HtmlFindAll_body_outside[OF t, of str c d r] Cons.IH[OF xs]
    by (simp add: algebra_simps)
qed

lemma HtmlFindAll_run_inside:
  "list_all (\<lambda>t. \<not> named tag t) xs \<Longrightarrow>
   HtmlFindAll_run str tag c xs (d, [d0], [b], r, False, True, 0) =
   Inr (d + depth_change xs, [d0], [b @ concat (map str xs)], r, False, True, 0)"
proof (induction xs arbitrary: d b)
  case Nil
  show ?case by simp
next
  case (Cons t xs)
  then have t: "\<not> named tag t" and xs: "list_all (\<lambda>t. \<not> named tag t) xs" by simp_all
  show ?case
    using HtmlFindAll_body_inside[OF t, of str c d d0 b r] Cons.IH[OF xs]
    by (simp add: algebra_simps)
qed

lemma HtmlFindAll_body_open:
  assumes "Type t = StartTagToken" and "Data t = tag" and "HtmlCheckAttrs c (Attr t)"
  shows "HtmlFindAll_body str tag c (t, Err t) (d, [], [], r, False, True, - 1) =
         Inr (d + 1, [d + 1], [str t], r, False, True, 0)"
  using assms by (simp add: Err_def HtmlFindAll_push_def Let_def)

lemma HtmlFindAll_body_close:
  assumes "Type t = EndTagToken" and "Data t = tag"
  shows "HtmlFindAll_body str tag c (t, Err t) (d, [d], [b], r, False, True, 0) =
         Inr (d - 1, [], [], r @ [b @ str t], False, True, - 1)"
  using assms by (simp add: Err_def HtmlFindAll_push_def index_def slice_to_def)

lemma HtmlFindAll_run_element:
  assumes "is_element tag c el"
  shows "HtmlFindAll_run str tag c el (d, [], [], r, False, True, - 1) =
         Inr (d, [], [], r @ [concat (map str el)], False, True, - 1)"
proof -
  from assms obtain opn rest where el: "el = opn # rest" and rest: "rest \<noteq> []"
    and opn: "Type opn = StartTagToken" "Data opn = tag" "HtmlCheckAttrs c (Attr opn)"
    and cls: "Type (last rest) = EndTagToken" "Data (last rest) = tag"
    and body: "list_all (\<lambda>t. \<not> named tag t) (butlast rest)" "depth_change (butlast rest) = 0"
    by (auto simp: is_element_def split: list.splits)
  have split: "el = opn # butlast rest @ [last rest]"
    using el rest by simp
  have "HtmlFindAll_run str tag c (opn # butlast rest @ [last rest]) (d, [], [], r, False, True, - 1) =
        Inr (d, [], [], r @ [concat (map str (opn # butlast rest @ [last rest]))], False, True, - 1)"
    by (simp add: HtmlFindAll_body_open[OF opn] HtmlFindAll_run_append
        HtmlFindAll_run_inside[OF body(1)] body(2) HtmlFindAll_body_close[OF cls]
        del: HtmlFindAll_body.simps)
  then show ?thesis
    using split by simp
qed

lemma HtmlFindAll_run_items:
  assumes "\<forall>(el, between) \<in> set items.
             is_element tag c el \<and> list_all (\<lambda>t. \<not> named tag t) between"
  shows "\<exists>d'. HtmlFindAll_run str tag c (concat (map (\<lambda>(el, between). el @ between) items))
                 (d, [], [], r, False, True, - 1) =
               Inr (d', [], [], r @ map (\<lambda>(el, between). concat (map str el)) items,
                    False, True, - 1)"
  using assms
proof (induction items arbitrary: d r)
  case Nil
  show ?case by simp
next
  case (Cons item items)
  obtain el between where item: "item = (el, between)" by (cases item)
  from Cons.prems item have el: "is_element tag c el"
    and between: "list_all (\<lambda>t. \<not> named tag t) between"
    and items: "\<forall>(el, between) \<in> set items.
             is_element tag c el \<and> list_all (\<lambda>t. \<not> named tag t) between"
    by auto
  from Cons.IH[OF items, of "d + depth_change between" "r @ [concat (map str el)]"]
  obtain d' where
    "HtmlFindAll_run str tag c (concat (map (\<lambda>(el, between). el @ between) items))
       (d + depth_change between, [], [], r @ [concat (map str el)], False, True, - 1) =
     Inr (d', [], [], (r @ [concat (map str el)]) @ map (\<lambda>(el, between). concat (map str el)) items,
          False, True, - 1)"
    by blast
  then show ?case
    by (simp add: item HtmlFindAll_run_append HtmlFindAll_run_element[OF el]
        HtmlFindAll_run_outside[OF between] del: HtmlFindAll_body.simps)
qed

lemma HtmlFindAll_eq_run:
  "HtmlFindAll str (NewTokenizer ts e) tag c =
     (case HtmlFindAll_run str tag c ts (0, [], [], [], False, True, - 1) of
        Inl x \<Rightarrow> Some (Inl x)
      | Inr vars' \<Rightarrow> HtmlFindAll_loop str tag c (NewTokenizer [] e) vars')"
  by (simp only: HtmlFindAll_def NewTokenizer_def HtmlFindAll_loop_run)

lemma HtmlFindAll_loop_EOF':
  "HtmlFindAll_loop str tag c (NewTokenizer [] EOF) (d, td, h, r, False, True, n) =
   Some (Inr (r, NewTokenizer [] EOF))"
  by (simp add: NewTokenizer_def HtmlFindAll_loop_EOF)

lemma HtmlFindAll_run_flags:
  "HtmlFindAll_run str tag c ts (d, td, h, r, False, True, n) = Inr (d', td', h', r', p', l', n')
   \<Longrightarrow> \<not> p' \<and> l'"
proof (induction ts arbitrary: d td h r n)
  case Nil
  then show ?case by simp
next
  case (Cons t ts)
  from Cons.prems obtain vars where
    b: "HtmlFindAll_body str tag c (t, Err t) (d, td, h, r, False, True, n) = Inr vars"
    and rest: "HtmlFindAll_run str tag c ts vars = Inr (d', td', h', r', p', l', n')"
    by (auto split: sum.splits simp del: HtmlFindAll_body.simps)
  obtain d1 td1 h1 r1 p1 l1 n1 where v: "vars = (d1, td1, h1, r1, p1, l1, n1)"
    by (cases vars rule: prod_cases7)
  have "\<not> p1 \<and> l1"
    using HtmlFindAll_body_flags[OF b[unfolded v]] by (simp add: Err_not_EOF)
  with rest v Cons.IH[of d1 td1 h1 r1 n1] show ?case by simp
qed

lemma HtmlFindAll_EOF:
  "HtmlFindAll str (NewTokenizer ts EOF) tag c =
     (case HtmlFindAll_run str tag c ts (0, [], [], [], False, True, - 1) of
        Inl x \<Rightarrow> Some (Inl x)
      | Inr (depth, tagDepth, h, ret, push, loop, n) \<Rightarrow> Some (Inr (ret, NewTokenizer [] EOF)))"
proof (cases "HtmlFindAll_run str tag c ts (0, [], [], [], False, True, - 1)")
  case (Inl x)
  then show ?thesis by (simp add: HtmlFindAll_eq_run)
next
  case (Inr vars)
  obtain d td h r p l n where v: "vars = (d, td, h, r, p, l, n)"
    by (cases vars rule: prod_cases7)
  have "\<not> p \<and> l"
    using HtmlFindAll_run_flags Inr[unfolded v] by blast
  then show ?thesis
    using Inr v by (simp add: HtmlFindAll_eq_run HtmlFindAll_loop_EOF')
qed

lemma HtmlFindAll_loop_stuck_aux:
  assumes "HtmlFindAll_loop str tag c z vars = Some y"
  shows "\<not> (pending z = [] \<and> ending z = ErrOther
            \<and> \<not> fst (snd (snd (snd (snd vars))))
            \<and> fst (snd (snd (snd (snd (snd vars))))))"
proof (rule HtmlFindAll_loop.raw_induct
    [where P = "\<lambda>str tag c z vars y.
        \<not> (pending z = [] \<and> ending z = ErrOther
            \<and> \<not> fst (snd (snd (snd (snd vars))))
            \<and> fst (snd (snd (snd (snd (snd vars))))))",
      OF _ assms])
  fix f str tag c z vars y
  assume IH: "\<And>str tag c z vars y. f str tag c z vars = Some y \<Longrightarrow>
      \<not> (pending z = [] \<and> ending z = ErrOther
            \<and> \<not> fst (snd (snd (snd (snd vars))))
            \<and> fst (snd (snd (snd (snd (snd vars))))))"
    and step: "(case vars of
        (depth, tagDepth, h, ret, push, loop, n) \<Rightarrow>
          if loop
          then case Next z of
               (tokenizer', pulled) \<Rightarrow>
                 (case HtmlFindAll_body str tag c pulled vars of
                    Inl p \<Rightarrow> Some (Inl p)
                  | Inr vars' \<Rightarrow> f str tag c tokenizer' vars')
          else Some (Inr (ret, z))) = Some y"
  show "\<not> (pending z = [] \<and> ending z = ErrOther
            \<and> \<not> fst (snd (snd (snd (snd vars))))
            \<and> fst (snd (snd (snd (snd (snd vars))))))"
  proof
    assume a: "pending z = [] \<and> ending z = ErrOther
            \<and> \<not> fst (snd (snd (snd (snd vars))))
            \<and> fst (snd (snd (snd (snd (snd vars)))))"
    obtain d td h r p l n where v: "vars = (d, td, h, r, p, l, n)"
      by (cases vars rule: prod_cases7)
    have pl: "\<not> p" "l" using a v by simp_all
    have b: "HtmlFindAll_body str tag c (ErrorTok, Some ErrOther) vars =
             Inr (d, td, map (\<lambda>i. i @ str ErrorTok) h, r, False, True, n)"
      using pl by (simp add: v ErrorTok_def HtmlFindAll_push_def)
    have "f str tag c z (d, td, map (\<lambda>i. i @ str ErrorTok) h, r, False, True, n) = Some y"
      using step a pl b by (simp add: v Next_def del: HtmlFindAll_body.simps)
    from IH[OF this] show False using a by simp
  qed
qed

lemma HtmlFindAll_loop_stuck:
  "HtmlFindAll_loop str tag c (NewTokenizer [] ErrOther) (d, td, h, r, False, True, n) = None"
  using HtmlFindAll_loop_stuck_aux
    [of str tag c "NewTokenizer [] ErrOther" "(d, td, h, r, False, True, n)"]
  by (cases "HtmlFindAll_loop str tag c (NewTokenizer [] ErrOther) (d, td, h, r, False, True, n)")
    (auto simp: NewTokenizer_def)

lemma HtmlFindAll_ErrOther:
  "HtmlFindAll str (NewTokenizer ts ErrOther) tag c =
     (case HtmlFindAll_run str tag c ts (0, [], [], [], False, True, - 1) of
        Inl x \<Rightarrow> Some (Inl x)
      | Inr vars' \<Rightarrow> None)"
proof (cases "HtmlFindAll_run str tag c ts (0, [], [], [], False, True, - 1)")
  case (Inl x)
  then show ?thesis by (simp add: HtmlFindAll_eq_run)
next
  case (Inr vars)
  obtain d td h r p l n where v: "vars = (d, td, h, r, p, l, n)"
    by (cases vars rule: prod_cases7)
  have "\<not> p \<and> l"
    using HtmlFindAll_run_flags Inr[unfolded v] by blast
  then show ?thesis
    using Inr v by (simp add: HtmlFindAll_eq_run HtmlFindAll_loop_stuck)
qed


text \<open>
  C6. A stream of sibling elements named \<open>tag\<close>, each satisfying the predicate, with no
  other tag named \<open>tag\<close> before, between, inside or after them, and each element's content
  closing every tag it opens: \<open>HtmlFindAll\<close> returns one fragment per element, in the
  order of the elements, and each fragment is the concatenation of the renderings of
  the element's tokens from its start tag to its end tag. The number of fragments is the
  number of elements.
\<close>

theorem HtmlFindAll_siblings:
  assumes "list_all (\<lambda>t. \<not> named tag t) before"
    and "\<forall>(el, between) \<in> set items.
           is_element tag c el \<and> list_all (\<lambda>t. \<not> named tag t) between"
  shows "HtmlFindAll str
           (NewTokenizer (before @ concat (map (\<lambda>(el, between). el @ between) items)) EOF)
           tag c
         = Some (Inr (map (\<lambda>(el, between). concat (map str el)) items, NewTokenizer [] EOF))"
proof -
  obtain d' where
    "HtmlFindAll_run str tag c (concat (map (\<lambda>(el, between). el @ between) items))
       (0 + depth_change before, [], [], [], False, True, - 1) =
     Inr (d', [], [], [] @ map (\<lambda>(el, between). concat (map str el)) items, False, True, - 1)"
    using HtmlFindAll_run_items[OF assms(2)] by blast
  then show ?thesis
    by (simp add: HtmlFindAll_EOF HtmlFindAll_run_append HtmlFindAll_run_outside[OF assms(1)]
        del: HtmlFindAll_body.simps)
qed

theorem HtmlFindAll_siblings_witness:
  "HtmlFindAll TokenString
     (NewTokenizer
        [StartTag ''div'' [(''class'', ''a b'')], StartTag ''p'' [], Text ''x'', EndTag ''p'',
         EndTag ''div'',
         StartTag ''div'' [(''class'', ''a'')], StartTag ''p'' [], Text ''y'', EndTag ''p'',
         EndTag ''div''] EOF)
     ''div'' (Some (HtmlKeyInAttr ''class'' ''a''))
   = Some (Inr ([''<div class='' @ [CHR 0x22] @ ''a b'' @ [CHR 0x22] @ ''><p>x</p></div>'',
                 ''<div class='' @ [CHR 0x22] @ ''a'' @ [CHR 0x22] @ ''><p>y</p></div>''],
                NewTokenizer [] EOF))"
  using HtmlFindAll_siblings
    [of "''div''" "[]"
        "[([StartTag ''div'' [(''class'', ''a b'')], StartTag ''p'' [], Text ''x'', EndTag ''p'',
            EndTag ''div''], []),
          ([StartTag ''div'' [(''class'', ''a'')], StartTag ''p'' [], Text ''y'', EndTag ''p'',
            EndTag ''div''], [])]"
        "Some (HtmlKeyInAttr ''class'' ''a'')" TokenString]
  by (simp add: is_element_def named_def HtmlKeyInAttr_def Split.simps
      StartTag_def EndTag_def Text_def attrs_def TokenString_def tagString_def)

lemma HtmlFindAll_body_inv:
  assumes "HtmlFindAll_body str tag c (t, err) (d, td, h, r, False, l, n)
           = Inr (d', td', h', r', p', l', n')"
    and "n = int (length td) - 1" and "length h = length td"
  shows "n' = int (length td') - 1 \<and> length h' = length td'"
  using assms
  by (auto simp: HtmlFindAll_push_def index_def slice_to_def Let_def
      split: if_splits sum.splits)

lemma HtmlFindAll_body_panic:
  assumes "HtmlFindAll_body str tag c (t, err) (d, td, h, r, False, l, n) = Inl p"
    and "n = int (length td) - 1" and "length h = length td"
  shows "p = IndexOutOfRange \<and> td = [] \<and> Type t = EndTagToken \<and> Data t = tag"
  using assms
  by (auto simp: HtmlFindAll_push_def index_def slice_to_def Let_def
      split: if_splits sum.splits)

lemma HtmlFindAll_run_panic:
  "HtmlFindAll_run str tag c ts (d, td, h, r, False, True, n) = Inl p \<Longrightarrow>
   n = int (length td) - 1 \<Longrightarrow> length h = length td \<Longrightarrow> p = IndexOutOfRange"
proof (induction ts arbitrary: d td h r n)
  case Nil
  then show ?case by simp
next
  case (Cons t ts)
  show ?case
  proof (cases "HtmlFindAll_body str tag c (t, Err t) (d, td, h, r, False, True, n)")
    case (Inl x)
    then show ?thesis
      using Cons.prems HtmlFindAll_body_panic[OF Inl Cons.prems(2,3)]
      by (simp del: HtmlFindAll_body.simps)
  next
    case (Inr vars)
    obtain d1 td1 h1 r1 p1 l1 n1 where v: "vars = (d1, td1, h1, r1, p1, l1, n1)"
      by (cases vars rule: prod_cases7)
    have fl: "\<not> p1 \<and> l1"
      using HtmlFindAll_body_flags[OF Inr[unfolded v]] by (simp add: Err_not_EOF)
    have inv: "n1 = int (length td1) - 1 \<and> length h1 = length td1"
      using HtmlFindAll_body_inv[OF Inr[unfolded v] Cons.prems(2,3)] .
    have "HtmlFindAll_run str tag c ts (d1, td1, h1, r1, False, True, n1) = Inl p"
      using Cons.prems(1) Inr v fl by (simp del: HtmlFindAll_body.simps)
    then show ?thesis
      using Cons.IH inv by blast
  qed
qed

lemma HtmlFindAll_panic_is_index:
  assumes "HtmlFindAll str (NewTokenizer ts e) tag c = Some (Inl p)"
  shows "p = IndexOutOfRange"
proof -
  have "HtmlFindAll_run str tag c ts (0, [], [], [], False, True, - 1) = Inl p"
  proof (cases "HtmlFindAll_run str tag c ts (0, [], [], [], False, True, - 1)")
    case (Inl x)
    then show ?thesis using assms by (simp add: HtmlFindAll_eq_run)
  next
    case (Inr vars)
    then show ?thesis
      using assms by (cases e) (simp_all add: HtmlFindAll_EOF HtmlFindAll_ErrOther split: prod.splits)
  qed
  then show ?thesis
    by (rule HtmlFindAll_run_panic) simp_all
qed

text \<open>
  The only panic of \<open>HtmlFindAll\<close> is the read of \<open>tagDepth[n]\<close>: the slices
  \<open>tagDepth[:n]\<close> and \<open>h[:n]\<close> and the read of \<open>h[n]\<close> are always in range.
\<close>

theorem HtmlFindAll_never_slices_out_of_range:
  "HtmlFindAll str (NewTokenizer ts e) tag c \<noteq> Some (Inl SliceBoundsOutOfRange)"
  using HtmlFindAll_panic_is_index[of str ts e tag c SliceBoundsOutOfRange] by auto

lemma HtmlFindAll_body_self_closing:
  assumes "Type t = SelfClosingTagToken" and "Data t = tag" and "HtmlCheckAttrs c (Attr t)"
  shows "HtmlFindAll_body str tag c (t, Err t) (d, [], [], r, False, True, - 1) =
         Inr (d, [], [], r @ [str t], False, True, - 1)"
  using assms by (simp add: Err_def HtmlFindAll_push_def index_def slice_to_def)

text \<open>
  A self-closing token named \<open>tag\<close> that satisfies the predicate, with no capture open:
  \<open>HtmlFindAll\<close> returns the one fragment that is the token's rendering.
\<close>

theorem HtmlFindAll_self_closing:
  assumes "Type t = SelfClosingTagToken" and "Data t = tag" and "HtmlCheckAttrs c (Attr t)"
    and "list_all (\<lambda>t. \<not> named tag t) before" and "list_all (\<lambda>t. \<not> named tag t) after"
  shows "HtmlFindAll str (NewTokenizer (before @ t # after) EOF) tag c
         = Some (Inr ([str t], NewTokenizer [] EOF))"
  by (simp add: HtmlFindAll_EOF HtmlFindAll_run_append HtmlFindAll_run_outside[OF assms(4)]
      HtmlFindAll_body_self_closing[OF assms(1-3)] HtmlFindAll_run_outside[OF assms(5)]
      del: HtmlFindAll_body.simps)

theorem HtmlFindAll_self_closing_witness:
  "HtmlFindAll TokenString
     (NewTokenizer [Text ''a'', SelfClosingTag ''br'' [], Text ''b''] EOF) ''br'' None
   = Some (Inr ([''<br/>''], NewTokenizer [] EOF))"
  using HtmlFindAll_self_closing
    [of "SelfClosingTag ''br'' []" "''br''" None "[Text ''a'']" "[Text ''b'']" TokenString]
  by (simp add: named_def SelfClosingTag_def Text_def attrs_def TokenString_def tagString_def)

text \<open>
  A stream that ends, with clean end-of-stream, before the end tag of the matched
  element: \<open>HtmlFind\<close> returns what it has written, \<open>HtmlFindAll\<close> returns no fragment
  for the element.
\<close>

theorem truncated_element:
  assumes "Type opn = StartTagToken" and "Data opn = tag" and "HtmlCheckAttrs (Some f) (Attr opn)"
    and "list_all (\<lambda>t. \<not> named tag t) before" and "depth_change before \<noteq> - 2"
    and "list_all (\<lambda>t. \<not> named tag t) content"
  shows "HtmlFind str (NewTokenizer (before @ opn # content) EOF) tag (Some f)
         = Some (concat (map str (opn # content)) @ str ErrorTok, NewTokenizer [] EOF)
       \<and> HtmlFindAll str (NewTokenizer (before @ opn # content) EOF) tag (Some f)
         = Some (Inr ([], NewTokenizer [] EOF))"
proof
  have d1: "depth_change before + 1 \<noteq> - 1" using assms(5) by simp
  show "HtmlFind str (NewTokenizer (before @ opn # content) EOF) tag (Some f)
         = Some (concat (map str (opn # content)) @ str ErrorTok, NewTokenizer [] EOF)"
    using HtmlFind_body_open[OF assms(1-3) assms(5), of str "[]"] d1
    by (simp add: HtmlFind_eq_run HtmlFind_run_append HtmlFind_run_outside[OF assms(4)]
        HtmlFind_run_inside[OF assms(6) d1] WriteString_def del: HtmlFind_body.simps)
  show "HtmlFindAll str (NewTokenizer (before @ opn # content) EOF) tag (Some f)
         = Some (Inr ([], NewTokenizer [] EOF))"
    by (simp add: HtmlFindAll_EOF HtmlFindAll_run_append HtmlFindAll_run_outside[OF assms(4)]
        HtmlFindAll_body_open[OF assms(1-3)] HtmlFindAll_run_inside[OF assms(6)]
        del: HtmlFindAll_body.simps)
qed

theorem truncated_element_witness:
  "HtmlFind TokenString (NewTokenizer [StartTag ''div'' [(''id'', ''m'')], Text ''x''] EOF)
     ''div'' (Some (HtmlKeyInAttr ''id'' ''m''))
   = Some (''<div id='' @ [CHR 0x22] @ ''m'' @ [CHR 0x22] @ ''>x'', NewTokenizer [] EOF)
   \<and> HtmlFindAll TokenString (NewTokenizer [StartTag ''div'' [(''id'', ''m'')], Text ''x''] EOF)
       ''div'' (Some (HtmlKeyInAttr ''id'' ''m''))
     = Some (Inr ([], NewTokenizer [] EOF))"
  using truncated_element
    [of "StartTag ''div'' [(''id'', ''m'')]" "''div''" "HtmlKeyInAttr ''id'' ''m''" "[]"
        "[Text ''x'']" TokenString]
  by (simp add: named_def HtmlKeyInAttr_def StartTag_def Text_def attrs_def ErrorTok_def
      TokenString_def tagString_def)

text \<open>
  Two matching elements, one inside the other: \<open>HtmlFindAll\<close> returns both, the inner
  one first, each with all its tokens.
\<close>

theorem HtmlFindAll_nested:
  "HtmlFindAll TokenString
     (NewTokenizer [StartTag ''div'' [], StartTag ''div'' [], Text ''x'', EndTag ''div'',
                    EndTag ''div''] EOF)
     ''div'' None
   = Some (Inr ([''<div>x</div>'', ''<div><div>x</div></div>''], NewTokenizer [] EOF))"
  by (simp add: HtmlFindAll_EOF HtmlFindAll_push_def index_def slice_to_def Err_def
      StartTag_def EndTag_def Text_def attrs_def TokenString_def tagString_def)

section \<open>A tokenizer that ends with an error other than io.EOF\<close>

text \<open>
  Both loops leave at an \<^verbatim>\<open>ErrorToken\<close> only when the error is \<^verbatim>\<open>io.EOF\<close>. On a stream
  that ends with clean end-of-stream both calls end (\<open>HtmlFindAll\<close> with its result or
  with a panic). On the same tokens ending with another error, \<open>HtmlFind\<close> returns
  nothing but what it returns with clean end-of-stream, and \<open>HtmlFindAll\<close> returns no
  result at all.
\<close>

lemma HtmlFind_only_EOF_ends:
  "(\<exists>r z. HtmlFind str (NewTokenizer ts EOF) tag c = Some (r, z))
   \<and> (\<exists>y. HtmlFindAll str (NewTokenizer ts EOF) tag c = Some y)
   \<and> (\<forall>r z. HtmlFind str (NewTokenizer ts ErrOther) tag c = Some (r, z) \<longrightarrow>
          HtmlFind str (NewTokenizer ts EOF) tag c = Some (r, z\<lparr>ending := EOF\<rparr>))
   \<and> (\<forall>r z. HtmlFind str (NewTokenizer ts EOF) tag c = Some (r, z) \<and> pending z \<noteq> [] \<longrightarrow>
          HtmlFind str (NewTokenizer ts ErrOther) tag c = Some (r, z\<lparr>ending := ErrOther\<rparr>))
   \<and> (\<forall>x. HtmlFindAll str (NewTokenizer ts ErrOther) tag c \<noteq> Some (Inr x))"
proof (intro conjI allI impI)
  show "\<exists>r z. HtmlFind str (NewTokenizer ts EOF) tag c = Some (r, z)"
    by (rule HtmlFind_EOF_returns)
  show "\<exists>y. HtmlFindAll str (NewTokenizer ts EOF) tag c = Some y"
    by (simp add: HtmlFindAll_EOF split: sum.splits prod.splits del: HtmlFindAll_body.simps)
  show "HtmlFind str (NewTokenizer ts EOF) tag c = Some (r, z\<lparr>ending := EOF\<rparr>)"
    if "HtmlFind str (NewTokenizer ts ErrOther) tag c = Some (r, z)" for r z
    using that by (rule HtmlFind_ErrOther_EOF)
  show "HtmlFind str (NewTokenizer ts ErrOther) tag c = Some (r, z\<lparr>ending := ErrOther\<rparr>)"
    if "HtmlFind str (NewTokenizer ts EOF) tag c = Some (r, z) \<and> pending z \<noteq> []" for r z
    using that HtmlFind_EOF_ErrOther by blast
  show "HtmlFindAll str (NewTokenizer ts ErrOther) tag c \<noteq> Some (Inr x)" for x
    by (rule HtmlFindAll_ErrOther_never_returns)
qed

text \<open>
  C5. The claim: on a stream that ends with an error other than \<^verbatim>\<open>io.EOF\<close> both
  extractors end as they do on clean end-of-stream and return what they have
  accumulated. The doc comment of \<open>HtmlFind\<close> says that errors of the tokenizer are
  ignored, and the loops do skip such an error and ask for the next token; but the
  tokenizer reports the same error at every further call, so the loop never ends. With
  clean end-of-stream \<open>HtmlFind\<close> returns the unfinished \<^verbatim>\<open><div id="m">x\<close> and
  \<open>HtmlFindAll\<close> returns the fragment \<^verbatim>\<open><div>x</div>\<close>; on the same tokens from a
  tokenizer that ends with another error neither call returns, not even with the
  fragment that was already complete.
\<close>

theorem HtmlFind_never_returns_after_error:
  "HtmlFind TokenString (NewTokenizer [StartTag ''div'' [(''id'', ''m'')], Text ''x''] EOF) ''div''
     (Some (HtmlKeyInAttr ''id'' ''m''))
   = Some (''<div id='' @ [CHR 0x22] @ ''m'' @ [CHR 0x22] @ ''>x'', NewTokenizer [] EOF)
   \<and> HtmlFind TokenString (NewTokenizer [StartTag ''div'' [(''id'', ''m'')], Text ''x''] ErrOther)
       ''div'' (Some (HtmlKeyInAttr ''id'' ''m''))
     = None
   \<and> HtmlFindAll TokenString
       (NewTokenizer [StartTag ''div'' [], Text ''x'', EndTag ''div''] EOF) ''div'' None
     = Some (Inr ([''<div>x</div>''], NewTokenizer [] EOF))
   \<and> HtmlFindAll TokenString
       (NewTokenizer [StartTag ''div'' [], Text ''x'', EndTag ''div''] ErrOther) ''div'' None
     = None"
  by (simp add: HtmlFind_eq_run HtmlFindAll_EOF HtmlFindAll_ErrOther HtmlKeyInAttr_def
      WriteString_def HtmlFindAll_push_def index_def slice_to_def Err_def ErrorTok_def
      StartTag_def EndTag_def Text_def attrs_def TokenString_def tagString_def)

end
